theory Spec2Isabelle
  imports Main
begin

section \<open>Data model (token.h, draft.cpp)\<close>

text \<open>
  \<^verbatim>\<open>enum TokenType { KEYWORD, IDENTIFIER, NUMBER, STRING, OPERATOR, WHITESPACE, UNKNOWN };\<close>
  \<^verbatim>\<open>struct Token { TokenType type; std::string value; };\<close>
  The fields are called \<open>tok_type\<close> and \<open>tok_value\<close> here, since \<open>value\<close> is reserved
  in Isabelle. A \<open>std::string\<close> is a sequence of bytes: \<open>string\<close>, a list of 8-bit \<open>char\<close>.
\<close>

datatype TokenType = KEYWORD | IDENTIFIER | NUMBER | STRING | OPERATOR | WHITESPACE | UNKNOWN

record Token =
  tok_type :: TokenType
  tok_value :: string

text \<open>
  \<^verbatim>\<open>struct Node { std::string value; std::vector<Node> children; };\<close>
  A default-constructed \<open>Node\<close> has the empty string and no children.
\<close>

datatype Node = Node (node_value: string) (children: "Node list")

abbreviation empty_node :: Node where
  "empty_node \<equiv> Node [] []"

text \<open>\<open>n.children.push_back(c)\<close>\<close>

definition push_back :: "Node \<Rightarrow> Node \<Rightarrow> Node" where
  "push_back n c = Node (node_value n) (children n @ [c])"

text \<open>\<open>Node{token.value, {}}\<close>: the leaf built from a token.\<close>

abbreviation leaf :: "Token \<Rightarrow> Node" where
  "leaf token \<equiv> Node (tok_value token) []"

text \<open>The double-quote character, byte 0x22.\<close>

abbreviation dquote :: char where
  "dquote \<equiv> CHR 0x22"

text \<open>The line break, byte 0x0A.\<close>

abbreviation newline :: char where
  "newline \<equiv> CHR 0x0A"

section \<open>tokenize\<close>

text \<open>
  \<open>tokenize\<close> scans \<open>code\<close> with \<open>std::sregex_iterator\<close> and the pattern
  \<^verbatim>\<open>(\bdef\b|\bprint\b|\w+|[0-9]+|".*?"|\s+|[^\w\s]+)\<close>
  in the default (ECMAScript) grammar, then classifies each match with \<open>std::regex_match\<close>.
  The model is the backtracking matcher of that grammar run on this pattern: alternatives are
  tried from left to right and the first one that matches at a position wins; a greedy
  \<open>+\<close> takes the longest run; the lazy \<open>*?\<close> takes the shortest. A matcher returns the
  number of characters it consumed, or \<open>None\<close>. The program never installs a locale, so the
  character classes are those of the "C" locale. Resource limits of the matcher are not
  modelled.
\<close>

text \<open>
  The character classes: \<open>[0-9]\<close>, the letters, \<open>\w\<close> (letters, digits and the
  underscore), \<open>\s\<close> (space, tab, line feed, vertical tab, form feed, carriage return),
  \<open>[^\w\s]\<close>, and \<open>.\<close> (every character but the line terminators).
\<close>

definition is_digit :: "char \<Rightarrow> bool" where
  "is_digit c = (c \<in> set ''0123456789'')"

definition is_alpha :: "char \<Rightarrow> bool" where
  "is_alpha c = (c \<in> set ''abcdefghijklmnopqrstuvwxyzABCDEFGHIJKLMNOPQRSTUVWXYZ'')"

definition is_word :: "char \<Rightarrow> bool" where
  "is_word c = (is_alpha c \<or> is_digit c \<or> c = CHR ''_'')"

definition is_space :: "char \<Rightarrow> bool" where
  "is_space c = (c \<in> set [CHR '' '', CHR 0x09, CHR 0x0A, CHR 0x0B, CHR 0x0C, CHR 0x0D])"

definition is_other :: "char \<Rightarrow> bool" where
  "is_other c = (\<not> (is_word c \<or> is_space c))"

definition is_dot :: "char \<Rightarrow> bool" where
  "is_dot c = (c \<noteq> CHR 0x0A \<and> c \<noteq> CHR 0x0D)"

text \<open>
  \<open>\b\<close> at a position: exactly one of the character before and the character after is a
  word character. \<open>prev\<close> is the character before the position, \<open>None\<close> at the start of
  the text of the first search (afterwards the iterator sets \<open>match_prev_avail\<close>).
\<close>

definition word_boundary :: "char option \<Rightarrow> string \<Rightarrow> bool" where
  "word_boundary prev s =
     ((case prev of None \<Rightarrow> False | Some c \<Rightarrow> is_word c)
        \<noteq> (case s of [] \<Rightarrow> False | c # _ \<Rightarrow> is_word c))"

text \<open>\<open>\bdef\b\<close> and \<open>\bprint\b\<close>: the reserved word \<open>kw\<close> between two word boundaries.\<close>

definition match_reserved :: "string \<Rightarrow> char option \<Rightarrow> string \<Rightarrow> nat option" where
  "match_reserved kw prev s =
     (if word_boundary prev s \<and> take (length kw) s = kw
         \<and> word_boundary (Some (last kw)) (drop (length kw) s)
      then Some (length kw) else None)"

text \<open>\<open>\w+\<close>, \<open>[0-9]+\<close>, \<open>\s+\<close>, \<open>[^\w\s]+\<close>: a greedy run of at least one character of
  a class, at the end of its alternative, so the longest run is the match.\<close>

definition match_run :: "(char \<Rightarrow> bool) \<Rightarrow> string \<Rightarrow> nat option" where
  "match_run P s = (let n = length (takeWhile P s) in if n = 0 then None else Some n)"

text \<open>
  \<open>".*?"\<close>: an opening quote, then the lazy body, which at each character first tries
  to close with a quote and only otherwise, when the character is not a line terminator,
  consumes it.
\<close>

fun match_lazy_quote :: "string \<Rightarrow> nat option" where
  "match_lazy_quote [] = None"
| "match_lazy_quote (c # cs) =
     (if c = dquote then Some 1
      else if is_dot c then map_option Suc (match_lazy_quote cs)
      else None)"

definition match_quoted :: "string \<Rightarrow> nat option" where
  "match_quoted s =
     (case s of [] \<Rightarrow> None
      | c # cs \<Rightarrow> if c = dquote then map_option Suc (match_lazy_quote cs) else None)"

text \<open>The ordered alternation \<open>a|b\<close>: \<open>b\<close> is tried only when \<open>a\<close> fails.\<close>

definition or_else :: "'a option \<Rightarrow> 'a option \<Rightarrow> 'a option" where
  "or_else a b = (case a of Some x \<Rightarrow> Some x | None \<Rightarrow> b)"

text \<open>The whole pattern \<open>token_regex\<close> at the start of \<open>s\<close>.\<close>

definition token_regex :: "char option \<Rightarrow> string \<Rightarrow> nat option" where
  "token_regex prev s =
     or_else (match_reserved ''def'' prev s)
    (or_else (match_reserved ''print'' prev s)
    (or_else (match_run is_word s)
    (or_else (match_run is_digit s)
    (or_else (match_quoted s)
    (or_else (match_run is_space s)
             (match_run is_other s))))))"

text \<open>
  \<open>std::regex_search\<close>: the match at the leftmost position that has one; the result is
  the number of characters skipped before the match and the length of the match.
\<close>

fun regex_search :: "char option \<Rightarrow> string \<Rightarrow> (nat \<times> nat) option" where
  "regex_search prev [] = map_option (Pair 0) (token_regex prev [])"
| "regex_search prev (c # cs) =
     (case token_regex prev (c # cs) of
        Some n \<Rightarrow> Some (0, n)
      | None \<Rightarrow> map_option (\<lambda>(k, n). (Suc k, n)) (regex_search (Some c) cs))"

text \<open>
  Every alternative consumes at least one character and never more than there are, and at
  every position of a non-empty text some alternative matches. So a match is never empty
  (the iterator's special step after an empty match is never taken) and the loop below
  terminates.
\<close>

lemma match_run_bounds: "match_run P s = Some n \<Longrightarrow> 0 < n \<and> n \<le> length s"
  using length_takeWhile_le [of P s] by (auto simp: match_run_def Let_def split: if_splits)

lemma match_reserved_bounds:
  "kw \<noteq> [] \<Longrightarrow> match_reserved kw prev s = Some n \<Longrightarrow> 0 < n \<and> n \<le> length s"
proof -
  assume kw: "kw \<noteq> []" and m: "match_reserved kw prev s = Some n"
  then have n: "n = length kw" and tk: "take (length kw) s = kw"
    by (auto simp: match_reserved_def split: if_splits)
  have "length (take (length kw) s) = length kw" using tk by simp
  then have "length kw \<le> length s" by simp
  with n kw show ?thesis by simp
qed

lemma match_lazy_quote_bounds: "match_lazy_quote s = Some n \<Longrightarrow> 0 < n \<and> n \<le> length s"
  by (induction s arbitrary: n) (auto split: if_splits)

lemma match_quoted_bounds: "match_quoted s = Some n \<Longrightarrow> 0 < n \<and> n \<le> length s"
  by (cases s) (auto simp: match_quoted_def split: if_splits dest: match_lazy_quote_bounds)

lemma token_regex_bounds: "token_regex prev s = Some n \<Longrightarrow> 0 < n \<and> n \<le> length s"
  unfolding token_regex_def or_else_def
  by (auto split: option.splits
      dest: match_run_bounds match_quoted_bounds match_reserved_bounds [rotated])

lemma token_regex_Nil: "token_regex prev [] = None"
  using token_regex_bounds [of prev "[]"] by (cases "token_regex prev []") auto

lemma regex_search_Nil: "regex_search prev [] = None"
  by (simp add: token_regex_Nil)

lemma match_run_head: "P c \<Longrightarrow> match_run P (c # cs) \<noteq> None"
  by (simp add: match_run_def)

lemma token_regex_total: "token_regex prev (c # cs) \<noteq> None"
proof -
  have "is_word c \<or> is_space c \<or> is_other c" by (auto simp: is_other_def)
  then show ?thesis
    unfolding token_regex_def or_else_def
    by (auto split: option.splits dest: match_run_head [of _ c cs])
qed

lemma regex_search_bounds:
  "regex_search prev s = Some (k, n) \<Longrightarrow> 0 < n \<and> k + n \<le> length s"
proof (induction s arbitrary: prev k n)
  case Nil
  then show ?case by (auto dest: token_regex_bounds)
next
  case (Cons c cs)
  then show ?case
    by (auto split: option.splits dest: token_regex_bounds)
qed

lemma regex_search_Cons:
  "\<exists>n. regex_search prev (c # cs) = Some (0, n) \<and> 0 < n \<and> n \<le> Suc (length cs)"
proof -
  obtain n where n: "token_regex prev (c # cs) = Some n"
    using token_regex_total [of prev c cs] by auto
  then show ?thesis using token_regex_bounds [OF n] by simp
qed

text \<open>
  The loop \<open>for (i = tokens_begin; i != tokens_end; ++i)\<close>: the texts \<open>match.str()\<close> of the
  successive matches. After a match the iterator searches again from the end of that match,
  with the last matched character as the character before.
\<close>

function token_matches :: "char option \<Rightarrow> string \<Rightarrow> string list" where
  "token_matches prev s =
     (case regex_search prev s of
        None \<Rightarrow> []
      | Some (k, n) \<Rightarrow>
          take n (drop k s) # token_matches (Some (s ! (k + n - 1))) (drop (k + n) s))"
  by pat_completeness auto
termination
proof (relation "measure (\<lambda>(prev, s). length s)")
  show "wf (measure (\<lambda>(prev, s). length s))" by simp
next
  fix prev :: "char option" and s :: string and x2 k n
  assume "regex_search prev s = Some x2" and "(k, n) = x2"
  then have "regex_search prev s = Some (k, n)" by simp
  from regex_search_bounds [OF this]
  have "length (drop (k + n) s) < length s" by simp arith
  then show "((Some (s ! (k + n - 1)), drop (k + n) s), (prev, s)) \<in> measure (\<lambda>(prev, s). length s)"
    by simp
qed

declare token_matches.simps [simp del]

text \<open>
  \<open>std::regex_match\<close> of a whole token text against the sub-patterns of the classifier.
  For the reserved words and the runs, the sub-pattern must consume the whole text. For
  \<open>".*?"\<close> the lazy body is extended until the closing quote is the last character: the
  text is a quote, characters that are not line terminators, and a quote.
\<close>

definition regex_match_reserved :: "string \<Rightarrow> bool" where
  "regex_match_reserved s =
     (match_reserved ''def'' None s = Some (length s) \<or> match_reserved ''print'' None s = Some (length s))"

definition regex_match_run :: "(char \<Rightarrow> bool) \<Rightarrow> string \<Rightarrow> bool" where
  "regex_match_run P s = (match_run P s = Some (length s))"

definition regex_match_quoted :: "string \<Rightarrow> bool" where
  "regex_match_quoted s =
     (2 \<le> length s \<and> hd s = dquote \<and> last s = dquote \<and> list_all is_dot (butlast (tl s)))"

text \<open>The \<open>if\<close> chain that picks the type, and \<open>tokenize\<close> itself.\<close>

definition classify :: "string \<Rightarrow> TokenType" where
  "classify token_str =
     (if regex_match_reserved token_str then KEYWORD
      else if regex_match_run is_word token_str then IDENTIFIER
      else if regex_match_run is_digit token_str then NUMBER
      else if regex_match_quoted token_str then STRING
      else if regex_match_run is_space token_str then WHITESPACE
      else OPERATOR)"

definition tokenize :: "string \<Rightarrow> Token list" where
  "tokenize code =
     map (\<lambda>token_str. \<lparr>tok_type = classify token_str, tok_value = token_str\<rparr>)
       (token_matches None code)"

section \<open>parse\<close>

text \<open>
  The \<open>for\<close> loop of \<open>parse\<close> over the tokens, with the two locals \<open>root\<close> and
  \<open>current\<close> passed as state. In the first keyword branch only \<open>current.value\<close> is
  assigned: the children \<open>current\<close> has collected so far stay.
\<close>

fun parse_loop :: "Node \<Rightarrow> Node \<Rightarrow> Token list \<Rightarrow> Node \<times> Node" where
  "parse_loop root current [] = (root, current)"
| "parse_loop root current (token # tokens) =
     (if tok_type token = KEYWORD then
        (if node_value current = [] then
           parse_loop root (Node (tok_value token) (children current)) tokens
         else
           parse_loop (push_back root current) (Node (tok_value token) []) tokens)
      else
        parse_loop root (push_back current (leaf token)) tokens)"

definition parse :: "Token list \<Rightarrow> Node" where
  "parse tokens =
     (case parse_loop empty_node empty_node tokens of
        (root, current) \<Rightarrow>
          if node_value current \<noteq> [] then push_back root current else root)"

text \<open>
  Two operations on trees used to state what \<open>parse\<close> does with tokens in front of the
  first keyword: \<open>add_front ls n\<close> puts the nodes \<open>ls\<close> in front of the children of
  \<open>n\<close>, and \<open>prepend_first ls root\<close> does so in the first child of \<open>root\<close>, if
  there is one.
\<close>

definition add_front :: "Node list \<Rightarrow> Node \<Rightarrow> Node" where
  "add_front ls n = Node (node_value n) (ls @ children n)"

definition prepend_first :: "Node list \<Rightarrow> Node \<Rightarrow> Node" where
  "prepend_first ls root =
     (case children root of [] \<Rightarrow> root | c # cs \<Rightarrow> Node (node_value root) (add_front ls c # cs))"

section \<open>checkSemantics and generateCode\<close>

text \<open>
  \<open>v[i]\<close> on a \<open>std::vector\<close> is defined only for \<open>i < v.size()\<close>; an access past the
  end is the error \<open>OutOfBounds\<close>. \<open>s[i]\<close> on a \<open>std::string\<close> is also defined for
  \<open>i = s.size()\<close>, where it reads the terminating null character.
\<close>

datatype error = OutOfBounds

definition vec_index :: "'a list \<Rightarrow> nat \<Rightarrow> error + 'a" where
  "vec_index xs i = (if i < length xs then Inr (xs ! i) else Inl OutOfBounds)"

definition str_index :: "string \<Rightarrow> nat \<Rightarrow> error + char" where
  "str_index s i =
     (if i < length s then Inr (s ! i)
      else if i = length s then Inr (CHR 0x00)
      else Inl OutOfBounds)"

text \<open>
  The loop of \<open>checkSemantics\<close> over \<open>node.children\<close>; \<open>return false\<close> leaves it. The
  \<open>||\<close> evaluates \<open>child.children[0].value[0]\<close> only when the size is not 0. The message
  written to \<open>std::cerr\<close> is not part of the result.
\<close>

fun checkSemantics_loop :: "Node list \<Rightarrow> error + bool" where
  "checkSemantics_loop [] = Inr True"
| "checkSemantics_loop (child # rest) =
     (if node_value child = ''print'' then
        (if length (children child) = 0 then Inr False
         else
           (case vec_index (children child) 0 of
              Inl e \<Rightarrow> Inl e
            | Inr g \<Rightarrow>
                (case str_index (node_value g) 0 of
                   Inl e \<Rightarrow> Inl e
                 | Inr ch \<Rightarrow>
                     if ch \<noteq> dquote then Inr False else checkSemantics_loop rest)))
      else checkSemantics_loop rest)"

definition checkSemantics :: "Node \<Rightarrow> error + bool" where
  "checkSemantics node = checkSemantics_loop (children node)"

text \<open>The inner loop of the \<open>print\<close> branch: \<open>code += grandChild.value\<close>.\<close>

fun append_values :: "string \<Rightarrow> Node list \<Rightarrow> string" where
  "append_values code [] = code"
| "append_values code (grandChild # rest) = append_values (code @ node_value grandChild) rest"

text \<open>The loop of \<open>generateCode\<close> over \<open>node.children\<close>, with \<open>code\<close> as state.\<close>

fun generateCode_loop :: "string \<Rightarrow> Node list \<Rightarrow> error + string" where
  "generateCode_loop code [] = Inr code"
| "generateCode_loop code (child # rest) =
     (if node_value child = ''def'' then
        (case vec_index (children child) 0 of
           Inl e \<Rightarrow> Inl e
         | Inr g \<Rightarrow>
             generateCode_loop (code @ ''void '' @ node_value g @ ''() {'' @ [newline]) rest)
      else if node_value child = ''print'' then
        generateCode_loop
          (append_values (code @ ''std::cout << '') (children child) @ '' << std::endl;'' @ [newline])
          rest
      else if node_value child = '':'' then
        generateCode_loop (code @ '' {'' @ [newline]) rest
      else
        generateCode_loop (code @ node_value child) rest)"

definition generateCode :: "Node \<Rightarrow> error + string" where
  "generateCode node =
     (case generateCode_loop [] (children node) of
        Inl e \<Rightarrow> Inl e
      | Inr code \<Rightarrow> Inr (code @ ''}'' @ [newline]))"

text \<open>
  Vocabulary of the properties: a label begins with a character; a \<open>print\<close> child is
  well-formed; the labels of the direct children and grandchildren of a root.
\<close>

definition begins_with :: "char \<Rightarrow> string \<Rightarrow> bool" where
  "begins_with ch s = (case s of [] \<Rightarrow> False | x # _ \<Rightarrow> x = ch)"

definition print_ok :: "Node \<Rightarrow> bool" where
  "print_ok c = (children c \<noteq> [] \<and> begins_with dquote (node_value (hd (children c))))"

definition labels_below :: "Node \<Rightarrow> string list" where
  "labels_below node = concat (map (\<lambda>c. node_value c # map node_value (children c)) (children node))"

section \<open>Properties of parse\<close>

lemma parse_loop_root_value:
  "node_value (fst (parse_loop root current tokens)) = node_value root"
  by (induction root current tokens rule: parse_loop.induct) (simp_all add: push_back_def)

lemma parse_loop_no_keyword:
  "list_all (\<lambda>t. tok_type t \<noteq> KEYWORD) tokens \<Longrightarrow>
   parse_loop root current tokens =
     (root, Node (node_value current) (children current @ map leaf tokens))"
  by (induction tokens arbitrary: current) (simp_all add: push_back_def)

lemma add_front_sel [simp]:
  "node_value (add_front ls n) = node_value n"
  "children (add_front ls n) = ls @ children n"
  by (simp_all add: add_front_def)

lemma parse_loop_append:
  "parse_loop root current (xs @ ys) =
     (case parse_loop root current xs of (r, c) \<Rightarrow> parse_loop r c ys)"
  by (induction root current xs rule: parse_loop.induct) simp_all

lemma parse_loop_children_nonempty:
  "children root \<noteq> [] \<Longrightarrow> children (fst (parse_loop root current tokens)) \<noteq> []"
  by (induction root current tokens rule: parse_loop.induct) (simp_all add: push_back_def)

lemma prepend_first_push_back:
  "children root \<noteq> [] \<Longrightarrow> prepend_first ls (push_back root c) = push_back (prepend_first ls root) c"
  by (cases root) (auto simp: prepend_first_def push_back_def split: list.splits)

lemma parse_loop_prepend_first:
  "children root \<noteq> [] \<Longrightarrow>
   parse_loop (prepend_first ls root) current tokens =
     (prepend_first ls (fst (parse_loop root current tokens)), snd (parse_loop root current tokens))"
proof (induction root current tokens rule: parse_loop.induct)
  case (1 root current)
  then show ?case by simp
next
  case (2 root current token tokens)
  have ne: "children (push_back root current) \<noteq> []" by (simp add: push_back_def)
  show ?case
    using 2 ne by (simp add: prepend_first_push_back)
qed

lemma push_back_add_front:
  "push_back (add_front ls n) c = add_front ls (push_back n c)"
  by (simp add: push_back_def add_front_def)

lemma push_back_first:
  "children root = [] \<Longrightarrow> push_back root (add_front ls c) = prepend_first ls (push_back root c)"
  by (simp add: push_back_def prepend_first_def)

lemma parse_loop_add_front:
  "children root = [] \<Longrightarrow>
   parse_loop root (add_front ls current) tokens =
     (case parse_loop root current tokens of
        (r, c) \<Rightarrow> if children r = [] then (r, add_front ls c) else (prepend_first ls r, c))"
proof (induction root current tokens rule: parse_loop.induct)
  case (1 root current)
  then show ?case by simp
next
  case (2 root current token tokens)
  show ?case
  proof (cases "tok_type token = KEYWORD")
    case False
    with 2 show ?thesis by (simp add: push_back_add_front)
  next
    case kw: True
    show ?thesis
    proof (cases "node_value current = []")
      case True
      have "Node (tok_value token) (children (add_front ls current)) = add_front ls (Node (tok_value token) (children current))"
        by (simp add: add_front_def)
      with 2 kw True show ?thesis by (simp add: add_front_def)
    next
      case False
      let ?r = "push_back root current"
      have ne: "children ?r \<noteq> []" by (simp add: push_back_def)
      have ne': "children (fst (parse_loop ?r (Node (tok_value token) []) tokens)) \<noteq> []"
        using parse_loop_children_nonempty [OF ne] .
      have "parse_loop root (add_front ls current) (token # tokens) =
            parse_loop (prepend_first ls ?r) (Node (tok_value token) []) tokens"
        using kw False "2.prems" by (simp add: push_back_first)
      also have "\<dots> = (prepend_first ls (fst (parse_loop ?r (Node (tok_value token) []) tokens)),
                        snd (parse_loop ?r (Node (tok_value token) []) tokens))"
        using parse_loop_prepend_first [OF ne] .
      finally show ?thesis
        using kw False ne' by (simp add: case_prod_beta)
    qed
  qed
qed

text \<open>
  C9: for every token sequence the root node returned by \<open>parse\<close> has the empty string
  as its label.
\<close>

theorem parse_root_label_empty: "node_value (parse tokens) = []"
proof -
  obtain root current where lp: "parse_loop empty_node empty_node tokens = (root, current)"
    by (cases "parse_loop empty_node empty_node tokens")
  have "node_value root = []"
    using parse_loop_root_value [of empty_node empty_node tokens] lp by simp
  then show ?thesis
    by (simp add: parse_def lp push_back_def)
qed

theorem parse_root_label_empty_witness:
  "node_value (parse [\<lparr>tok_type = KEYWORD, tok_value = ''def''\<rparr>,
                      \<lparr>tok_type = IDENTIFIER, tok_value = ''main''\<rparr>]) = []"
  using parse_root_label_empty
          [of "[\<lparr>tok_type = KEYWORD, tok_value = ''def''\<rparr>,
                \<lparr>tok_type = IDENTIFIER, tok_value = ''main''\<rparr>]"]
  by simp

text \<open>
  C5: for every token sequence without a token of kind \<open>KEYWORD\<close> (the empty sequence
  included) \<open>parse\<close> returns a root with zero children.
\<close>

theorem parse_no_keyword_no_children:
  assumes "list_all (\<lambda>t. tok_type t \<noteq> KEYWORD) tokens"
  shows "children (parse tokens) = []"
  using parse_loop_no_keyword [OF assms, of empty_node empty_node]
  by (simp add: parse_def)

theorem parse_no_keyword_no_children_witness:
  "children (parse [\<lparr>tok_type = IDENTIFIER, tok_value = ''x''\<rparr>,
                    \<lparr>tok_type = OPERATOR, tok_value = ''+''\<rparr>]) = []
   \<and> children (parse []) = []"
  using parse_no_keyword_no_children
          [of "[\<lparr>tok_type = IDENTIFIER, tok_value = ''x''\<rparr>,
                \<lparr>tok_type = OPERATOR, tok_value = ''+''\<rparr>]"]
        parse_no_keyword_no_children [of "[]"]
  by simp

text \<open>
  Every match of the pattern has at least one character, so every token that \<open>tokenize\<close>
  returns has a non-empty text; in particular its \<open>KEYWORD\<close> tokens do (their text is
  \<open>def\<close> or \<open>print\<close>).
\<close>

lemma token_matches_nonempty: "m \<in> set (token_matches prev s) \<Longrightarrow> m \<noteq> []"
proof (induction prev s rule: token_matches.induct)
  case (1 prev s)
  show ?case
  proof (cases "regex_search prev s")
    case None
    with "1.prems" show ?thesis
      by (subst (asm) token_matches.simps) simp
  next
    case (Some kn)
    obtain k n where kn: "kn = (k, n)" by (cases kn)
    have rs: "regex_search prev s = Some (k, n)" using Some kn by simp
    from regex_search_bounds [OF rs] have b: "0 < n" "k + n \<le> length s" by simp_all
    have "m = take n (drop k s) \<or> m \<in> set (token_matches (Some (s ! (k + n - 1))) (drop (k + n) s))"
      using "1.prems" by (subst (asm) token_matches.simps) (simp add: rs)
    then show ?thesis
    proof
      assume "m = take n (drop k s)"
      then have "length m = n" using b by simp
      with b(1) show ?thesis by auto
    next
      assume "m \<in> set (token_matches (Some (s ! (k + n - 1))) (drop (k + n) s))"
      then show ?thesis using "1.IH" [OF rs refl] by simp
    qed
  qed
qed

lemma tokenize_value_nonempty: "t \<in> set (tokenize code) \<Longrightarrow> tok_value t \<noteq> []"
  by (auto simp: tokenize_def dest: token_matches_nonempty)

text \<open>
  A keyword token with a non-empty text at the head of the sequence opens the first
  construct, and the non-keyword tokens after it become its leaves.
\<close>

lemma parse_single_keyword_nonempty:
  assumes "tok_type k = KEYWORD"
    and "tok_value k \<noteq> []"
    and "list_all (\<lambda>t. tok_type t \<noteq> KEYWORD) rest"
  shows "parse (k # rest) = Node [] [Node (tok_value k) (map leaf rest)]"
proof -
  have "parse_loop empty_node empty_node (k # rest) =
          parse_loop empty_node (Node (tok_value k) []) rest"
    using assms(1) by simp
  also have "\<dots> = (empty_node, Node (tok_value k) (map leaf rest))"
    using parse_loop_no_keyword [OF assms(3), of empty_node "Node (tok_value k) []"] by simp
  finally show ?thesis
    using assms(2) by (simp add: parse_def push_back_def)
qed

text \<open>
  C4: for every token sequence that is one token of kind \<open>KEYWORD\<close>, as \<open>tokenize\<close>
  produces them, followed by any number (possibly zero) of non-keyword tokens, \<open>parse\<close>
  returns a root with exactly one child; its label is the keyword token's text and its
  children are the leaves of the remaining tokens, in the same order.
\<close>

theorem parse_one_keyword:
  assumes "k \<in> set (tokenize code)"
    and "tok_type k = KEYWORD"
    and "list_all (\<lambda>t. tok_type t \<noteq> KEYWORD) rest"
  shows "parse (k # rest) = Node [] [Node (tok_value k) (map leaf rest)]
         \<and> length (children (parse (k # rest))) = 1"
  using parse_single_keyword_nonempty [OF assms(2) tokenize_value_nonempty [OF assms(1)] assms(3)]
  by simp

theorem parse_one_keyword_witness:
  "parse (tokenize ''def main'') = Node [] [Node ''def'' [Node '' '' [], Node ''main'' []]]
   \<and> parse [\<lparr>tok_type = KEYWORD, tok_value = ''print''\<rparr>] = Node [] [Node ''print'' []]"
proof -
  have tk: "tokenize ''def main'' =
      [\<lparr>tok_type = KEYWORD, tok_value = ''def''\<rparr>,
       \<lparr>tok_type = WHITESPACE, tok_value = '' ''\<rparr>,
       \<lparr>tok_type = IDENTIFIER, tok_value = ''main''\<rparr>]"
    by code_simp
  have tp: "tokenize ''print'' = [\<lparr>tok_type = KEYWORD, tok_value = ''print''\<rparr>]"
    by code_simp
  show ?thesis
    using parse_one_keyword
            [of "\<lparr>tok_type = KEYWORD, tok_value = ''def''\<rparr>" "''def main''"
                "[\<lparr>tok_type = WHITESPACE, tok_value = '' ''\<rparr>,
                  \<lparr>tok_type = IDENTIFIER, tok_value = ''main''\<rparr>]"]
          parse_one_keyword
            [of "\<lparr>tok_type = KEYWORD, tok_value = ''print''\<rparr>" "''print''" "[]"]
    by (simp add: tk tp)
qed

text \<open>
  C6, amended: for every token sequence that begins with non-keyword tokens \<open>pre\<close>
  followed by a \<open>KEYWORD\<close> token \<open>k\<close> and the rest, the leading tokens are not
  discarded. The tree of the full sequence is the tree of the suffix \<open>k # rest\<close> with the
  leaves of the leading tokens put, in order, in front of the children of the first direct
  child of the root (when the suffix gives the root no child, both trees are the childless
  root).
\<close>

theorem parse_leading_tokens_kept:
  assumes "list_all (\<lambda>t. tok_type t \<noteq> KEYWORD) pre"
    and "tok_type k = KEYWORD"
  shows "parse (pre @ k # rest) =
           (case children (parse (k # rest)) of
              [] \<Rightarrow> empty_node
            | c # cs \<Rightarrow> Node [] (Node (node_value c) (map leaf pre @ children c) # cs))"
proof -
  let ?tokens = "k # rest"
  obtain r c where lp: "parse_loop empty_node empty_node ?tokens = (r, c)"
    by (cases "parse_loop empty_node empty_node ?tokens")
  have rv: "node_value r = []"
    using parse_loop_root_value [of empty_node empty_node ?tokens] lp by simp
  have "parse_loop empty_node empty_node (pre @ ?tokens) =
          parse_loop empty_node (add_front (map leaf pre) empty_node) ?tokens"
    using parse_loop_no_keyword [OF assms(1), of empty_node empty_node]
    by (simp add: parse_loop_append add_front_def)
  also have "\<dots> = (if children r = [] then (r, add_front (map leaf pre) c)
                     else (prepend_first (map leaf pre) r, c))"
    using parse_loop_add_front [of empty_node "map leaf pre" empty_node ?tokens] lp by simp
  finally have full: "parse_loop empty_node empty_node (pre @ ?tokens) =
      (if children r = [] then (r, add_front (map leaf pre) c)
       else (prepend_first (map leaf pre) r, c))" .
  show ?thesis
  proof (cases "children r")
    case Nil
    with rv have r: "r = empty_node" by (cases r) simp
    show ?thesis
      using full Nil r lp by (simp add: parse_def push_back_def add_front_def)
  next
    case (Cons x xs)
    then show ?thesis
      using full rv lp by (simp add: parse_def push_back_def add_front_def prepend_first_def)
  qed
qed

theorem parse_leading_tokens_kept_witness:
  "parse ([\<lparr>tok_type = IDENTIFIER, tok_value = ''x''\<rparr>] @
          \<lparr>tok_type = KEYWORD, tok_value = ''def''\<rparr> #
          [\<lparr>tok_type = IDENTIFIER, tok_value = ''main''\<rparr>])
   = Node [] [Node ''def'' [Node ''x'' [], Node ''main'' []]]"
proof -
  have sfx: "parse (\<lparr>tok_type = KEYWORD, tok_value = ''def''\<rparr> #
                   [\<lparr>tok_type = IDENTIFIER, tok_value = ''main''\<rparr>])
             = Node [] [Node ''def'' [Node ''main'' []]]"
    by (simp add: parse_def push_back_def)
  show ?thesis
    using parse_leading_tokens_kept
            [of "[\<lparr>tok_type = IDENTIFIER, tok_value = ''x''\<rparr>]"
                "\<lparr>tok_type = KEYWORD, tok_value = ''def''\<rparr>"
                "[\<lparr>tok_type = IDENTIFIER, tok_value = ''main''\<rparr>]"]
    by (simp add: sfx)
qed

text \<open>
  C6 as stated fails: with an identifier in front of \<open>def main\<close> the tree differs from the
  tree of the suffix \<open>def main\<close>.
\<close>

theorem parse_leading_tokens_counterexample:
  "parse [\<lparr>tok_type = IDENTIFIER, tok_value = ''x''\<rparr>,
          \<lparr>tok_type = KEYWORD, tok_value = ''def''\<rparr>,
          \<lparr>tok_type = IDENTIFIER, tok_value = ''main''\<rparr>]
   \<noteq> parse [\<lparr>tok_type = KEYWORD, tok_value = ''def''\<rparr>,
            \<lparr>tok_type = IDENTIFIER, tok_value = ''main''\<rparr>]"
  by (simp add: parse_def push_back_def)

section \<open>Properties of checkSemantics and generateCode\<close>

lemma str_index_0: "str_index s 0 = Inr (case s of [] \<Rightarrow> CHR 0x00 | x # _ \<Rightarrow> x)"
  by (cases s) (simp_all add: str_index_def)

lemma checkSemantics_loop_eq:
  "checkSemantics_loop cs =
     Inr (list_all (\<lambda>c. node_value c = ''print'' \<longrightarrow> print_ok c) cs)"
proof (induction cs)
  case Nil
  show ?case by simp
next
  case (Cons c cs)
  show ?case
  proof (cases "children c")
    case Nil
    then show ?thesis using Cons by (simp add: print_ok_def)
  next
    case (Cons g gs)
    then show ?thesis
      using Cons.IH
      by (cases "node_value g") (simp_all add: print_ok_def vec_index_def str_index_def begins_with_def)
  qed
qed

lemma append_values_eq: "append_values code gs = code @ concat (map node_value gs)"
  by (induction gs arbitrary: code) simp_all

lemma generateCode_loop_ok_iff:
  "(\<exists>out. generateCode_loop code cs = Inr out) \<longleftrightarrow>
     (\<forall>c \<in> set cs. node_value c = ''def'' \<longrightarrow> children c \<noteq> [])"
  by (induction cs arbitrary: code) (auto simp: vec_index_def)

lemma count_append: "count_list (xs @ ys) x = count_list xs x + count_list ys x"
  by (induction xs) simp_all

lemma count_concat_zero:
  "\<forall>l \<in> set ls. x \<notin> set l \<Longrightarrow> count_list (concat ls) x = 0"
  by (induction ls) (simp_all add: count_append)

lemma generateCode_loop_braces:
  "generateCode_loop code cs = Inr out \<Longrightarrow>
   \<forall>c \<in> set cs. CHR ''}'' \<notin> set (node_value c) \<and> (\<forall>g \<in> set (children c). CHR ''}'' \<notin> set (node_value g)) \<Longrightarrow>
   count_list out (CHR ''}'') = count_list code (CHR ''}'')"
proof (induction cs arbitrary: code)
  case Nil
  then show ?case by simp
next
  case (Cons c cs)
  show ?case
  proof (cases "children c")
    case Nil
    then show ?thesis
      using Cons by (auto simp: vec_index_def count_append split: if_splits)
  next
    case gs: (Cons g gs')
    have "count_list (concat (map node_value (children c))) (CHR ''}'') = 0"
      using Cons.prems(2) by (intro count_concat_zero) simp
    then show ?thesis
      using gs Cons.IH Cons.prems
      by (auto simp: vec_index_def count_append append_values_eq split: if_splits)
  qed
qed


text \<open>
  C3: for every tree \<open>checkSemantics\<close> returns false if and only if some direct child of
  the root labelled \<open>print\<close> has no children or has a first child whose label does not
  begin with a double quote; on every other tree it returns true. Children with another
  label do not matter.
\<close>

theorem checkSemantics_fail_iff:
  "(checkSemantics node = Inr False \<longleftrightarrow>
      (\<exists>c \<in> set (children node). node_value c = ''print'' \<and>
         (children c = [] \<or> \<not> begins_with dquote (node_value (hd (children c))))))
   \<and> (checkSemantics node = Inr True \<longleftrightarrow>
      \<not> (\<exists>c \<in> set (children node). node_value c = ''print'' \<and>
         (children c = [] \<or> \<not> begins_with dquote (node_value (hd (children c))))))"
  by (auto simp: checkSemantics_def checkSemantics_loop_eq list_all_iff print_ok_def)


theorem checkSemantics_fail_iff_witness:
  "checkSemantics (Node [] [Node ''def'' [], Node ''print'' [Node '' '' [], Node [dquote, dquote] []]])
     = Inr False
   \<and> checkSemantics (Node [] [Node ''def'' [], Node ''print'' [Node [dquote, dquote] []]])
     = Inr True"
  using checkSemantics_fail_iff
          [of "Node [] [Node ''def'' [], Node ''print'' [Node '' '' [], Node [dquote, dquote] []]]"]
        checkSemantics_fail_iff
          [of "Node [] [Node ''def'' [], Node ''print'' [Node [dquote, dquote] []]]"]
  by (simp add: begins_with_def)

text \<open>
  C8: whenever \<open>generateCode\<close> completes, its output is the text accumulated by the loop
  over the direct children followed by one closing brace and a line break, whatever the
  number of \<open>def\<close> constructs. The loop adds no closing brace of its own: when no label
  of a child or grandchild contains one, the output contains exactly one closing brace.
\<close>

theorem generateCode_single_closing_brace:
  assumes "generateCode node = Inr out"
  shows "(\<exists>body. generateCode_loop [] (children node) = Inr body \<and> out = body @ [CHR ''}'', newline])
         \<and> ((\<forall>l \<in> set (labels_below node). CHR ''}'' \<notin> set l) \<longrightarrow>
              count_list out (CHR ''}'') = 1)"
proof -
  obtain body where body: "generateCode_loop [] (children node) = Inr body"
    and out: "out = body @ [CHR ''}'', newline]"
    using assms by (auto simp: generateCode_def split: sum.splits)
  have "count_list body (CHR ''}'') = 0"
    if "\<forall>l \<in> set (labels_below node). CHR ''}'' \<notin> set l"
    using generateCode_loop_braces [OF body] that by (simp add: labels_below_def)
  then show ?thesis
    using body out by (simp add: count_append)
qed

theorem generateCode_single_closing_brace_witness:
  "generateCode (Node [] [Node ''def'' [Node ''f'' []], Node ''def'' [Node ''g'' []]])
     = Inr (''void f() {'' @ [newline] @ ''void g() {'' @ [newline] @ ''}'' @ [newline])
   \<and> count_list (''void f() {'' @ [newline] @ ''void g() {'' @ [newline] @ ''}'' @ [newline])
        (CHR ''}'') = 1"
proof -
  have run: "generateCode (Node [] [Node ''def'' [Node ''f'' []], Node ''def'' [Node ''g'' []]])
     = Inr (''void f() {'' @ [newline] @ ''void g() {'' @ [newline] @ ''}'' @ [newline])"
    by (simp add: generateCode_def vec_index_def)
  show ?thesis
    using generateCode_single_closing_brace [OF run] run
    by (simp add: labels_below_def)
qed

text \<open>
  C10: \<open>generateCode\<close> stays in bounds on every tree in which each direct child labelled
  \<open>def\<close> has at least one child, and it reads past the end of an empty child sequence
  on every tree with a childless \<open>def\<close> child; \<open>checkSemantics\<close> stays in bounds on every
  tree.
\<close>

theorem generateCode_in_bounds_iff:
  "((\<forall>c \<in> set (children node). node_value c = ''def'' \<longrightarrow> children c \<noteq> []) \<longrightarrow>
      (\<exists>out. generateCode node = Inr out))
   \<and> ((\<exists>c \<in> set (children node). node_value c = ''def'' \<and> children c = []) \<longrightarrow>
      generateCode node = Inl OutOfBounds)
   \<and> (\<exists>b. checkSemantics node = Inr b)"
proof -
  have ok: "(\<exists>out. generateCode_loop [] (children node) = Inr out) \<longleftrightarrow>
        (\<forall>c \<in> set (children node). node_value c = ''def'' \<longrightarrow> children c \<noteq> [])"
    by (rule generateCode_loop_ok_iff)
  have a: "\<exists>out. generateCode node = Inr out"
    if "\<forall>c \<in> set (children node). node_value c = ''def'' \<longrightarrow> children c \<noteq> []"
    using ok that by (auto simp: generateCode_def)
  have b: "generateCode node = Inl OutOfBounds"
    if "\<exists>c \<in> set (children node). node_value c = ''def'' \<and> children c = []"
  proof (cases "generateCode_loop [] (children node)")
    case (Inl e)
    then show ?thesis by (cases e) (simp add: generateCode_def)
  next
    case (Inr out)
    then show ?thesis using ok that by auto
  qed
  have c: "\<exists>b. checkSemantics node = Inr b"
    by (simp add: checkSemantics_def checkSemantics_loop_eq)
  show ?thesis using a b c by blast
qed

theorem generateCode_in_bounds_iff_witness:
  "generateCode (Node [] [Node ''def'' [Node ''main'' []]]) = Inr (''void main() {'' @ [newline] @ ''}'' @ [newline])
   \<and> generateCode (Node [] [Node ''print'' [], Node ''def'' []]) = Inl OutOfBounds
   \<and> checkSemantics (Node [] [Node ''print'' [], Node ''def'' []]) = Inr False"
  using generateCode_in_bounds_iff [of "Node [] [Node ''def'' [Node ''main'' []]]"]
        generateCode_in_bounds_iff [of "Node [] [Node ''print'' [], Node ''def'' []]"]
  by (simp add: generateCode_def checkSemantics_def vec_index_def)

section \<open>Properties of tokenize\<close>

lemma token_matches_concat: "concat (token_matches prev s) = s"
proof (induction prev s rule: token_matches.induct)
  case (1 prev s)
  show ?case
  proof (cases s)
    case Nil
    then show ?thesis
      by (subst token_matches.simps) (simp add: regex_search_Nil del: regex_search.simps)
  next
    case (Cons c cs)
    obtain n where n: "regex_search prev s = Some (0, n)" and b: "0 < n" "n \<le> length s"
      using regex_search_Cons [of prev c cs] Cons by auto
    have "concat (token_matches prev s) =
            take n s @ concat (token_matches (Some (s ! (n - 1))) (drop n s))"
      by (subst token_matches.simps) (simp add: n)
    also have "\<dots> = take n s @ drop n s"
      using "1.IH" [OF n refl] by simp
    finally show ?thesis by simp
  qed
qed


lemma is_digit_is_word: "is_digit c \<Longrightarrow> is_word c"
  by (simp add: is_word_def)

lemma match_reserved_digits:
  assumes "list_all is_digit s" and "kw \<noteq> []" and "\<not> is_digit (hd kw)"
  shows "match_reserved kw prev s = None"
proof -
  have "take (length kw) s \<noteq> kw"
  proof
    assume eq: "take (length kw) s = kw"
    with assms(2) obtain c cs where s: "s = c # cs" by (cases s) auto
    with eq assms(2) have "hd kw = c" by (cases kw) auto
    with s assms(1,3) show False by simp
  qed
  then show ?thesis by (simp add: match_reserved_def)
qed

lemma match_run_all: "s \<noteq> [] \<Longrightarrow> list_all P s \<Longrightarrow> match_run P s = Some (length s)"
proof -
  assume ne: "s \<noteq> []" and all: "list_all P s"
  then have tw: "takeWhile P s = s" by (simp add: list_all_iff)
  show ?thesis unfolding match_run_def tw using ne by simp
qed

lemma token_matches_Nil: "token_matches prev [] = []"
  by (subst token_matches.simps) (simp add: regex_search_Nil del: regex_search.simps)

text \<open>
  A text of digits only is one match of \<open>\w+\<close>, and the classifier tests \<open>\w+\<close> before
  \<open>[0-9]+\<close>: the single token is an \<open>IDENTIFIER\<close>, and the \<open>NUMBER\<close> branch is never
  reached.
\<close>

lemma tokenize_digits:
  assumes "s \<noteq> []" and "list_all is_digit s"
  shows "tokenize s = [\<lparr>tok_type = IDENTIFIER, tok_value = s\<rparr>]"
proof -
  have w: "list_all is_word s"
    using assms(2) by (simp add: list_all_iff is_digit_is_word)
  have d: "match_reserved ''def'' prev s = None" for prev
    using assms(2) by (rule match_reserved_digits) (simp_all add: is_digit_def)
  have p: "match_reserved ''print'' prev s = None" for prev
    using assms(2) by (rule match_reserved_digits) (simp_all add: is_digit_def)
  have tr: "token_regex None s = Some (length s)"
    by (simp add: token_regex_def or_else_def d p match_run_all [OF assms(1) w])
  obtain c cs where s: "s = c # cs" using assms(1) by (cases s) auto
  have rs: "regex_search None s = Some (0, length s)"
    using tr by (simp add: s)
  have tm: "token_matches None s = [s]"
    by (subst token_matches.simps) (simp add: rs token_matches_Nil)
  have "classify s = IDENTIFIER"
    by (simp add: classify_def regex_match_reserved_def regex_match_run_def d p
        match_run_all [OF assms(1) w])
  then show ?thesis by (simp add: tokenize_def tm)
qed


text \<open>
  C1: for every input text the texts of the tokens returned by \<open>tokenize\<close>, concatenated
  in order, are the input text; the token sequence is empty exactly for the empty text.
\<close>

theorem tokenize_concat:
  "concat (map tok_value (tokenize code)) = code \<and> (tokenize code = [] \<longleftrightarrow> code = [])"
proof -
  have cat: "concat (map tok_value (tokenize code)) = code"
    using token_matches_concat [of None code] by (simp add: tokenize_def comp_def)
  have "tokenize [] = []"
    by (simp add: tokenize_def token_matches.simps regex_search_Nil del: regex_search.simps)
  moreover have "code = []" if "tokenize code = []"
    using cat that by simp
  ultimately show ?thesis using cat by auto
qed


theorem tokenize_concat_witness:
  "concat (map tok_value (tokenize ''x=1 '')) = ''x=1 '' \<and> tokenize ''x=1 '' \<noteq> []
   \<and> tokenize [] = []"
  using tokenize_concat [of "''x=1 ''"] tokenize_concat [of "[]"]
  by simp

text \<open>
  C7: on the text \<open>123\<close> \<open>tokenize\<close> returns a single token, of type \<open>IDENTIFIER\<close>
  and not \<open>NUMBER\<close>.
\<close>

theorem tokenize_123_identifier:
  "tokenize ''123'' = [\<lparr>tok_type = IDENTIFIER, tok_value = ''123''\<rparr>]"
  by code_simp

text \<open>
  C2: on the text \<open>def main ( ) : print ( "Hello" )\<close> the tree built by \<open>parse\<close> from
  the tokens has the two direct children \<open>def\<close> and \<open>print\<close>; the children of \<open>print\<close>
  start with the whitespace token before the parenthesis, and \<open>checkSemantics\<close> returns
  false.
\<close>

theorem hello_checkSemantics_fails:
  "map node_value (children (parse (tokenize
      (''def main ( ) : print ( '' @ [dquote] @ ''Hello'' @ [dquote] @ '' )''))))
     = [''def'', ''print'']
   \<and> map node_value (children (children (parse (tokenize
      (''def main ( ) : print ( '' @ [dquote] @ ''Hello'' @ [dquote] @ '' )''))) ! 1))
     = ['' '', ''('', '' '', [dquote] @ ''Hello'' @ [dquote], '' '', '')'']
   \<and> checkSemantics (parse (tokenize
      (''def main ( ) : print ( '' @ [dquote] @ ''Hello'' @ [dquote] @ '' )'')))
     = Inr False"
  by code_simp

text \<open>
  The token list of the example \<open>main\<close> that accompanies \<open>parse\<close> in the source (the same
  program without whitespace tokens) is rejected as well: the first child of \<open>print\<close> is
  the parenthesis.
\<close>

lemma hello_tokens_checkSemantics:
  "checkSemantics (parse
     [\<lparr>tok_type = KEYWORD, tok_value = ''def''\<rparr>, \<lparr>tok_type = IDENTIFIER, tok_value = ''main''\<rparr>,
      \<lparr>tok_type = OPERATOR, tok_value = ''(''\<rparr>, \<lparr>tok_type = OPERATOR, tok_value = '')''\<rparr>,
      \<lparr>tok_type = OPERATOR, tok_value = '':''\<rparr>, \<lparr>tok_type = KEYWORD, tok_value = ''print''\<rparr>,
      \<lparr>tok_type = OPERATOR, tok_value = ''(''\<rparr>,
      \<lparr>tok_type = STRING, tok_value = [dquote] @ ''Hello'' @ [dquote]\<rparr>,
      \<lparr>tok_type = OPERATOR, tok_value = '')''\<rparr>])
   = Inr False"
  by code_simp

end
